theory Spec2Isabelle
  imports Main "HOL-Library.Word" "HOL-Library.Sublist"
begin

section \<open>texpect: tailing tmux log files and waiting for patterns\<close>

text \<open>
  The program (\<^verbatim>\<open>main.go\<close>) tails one log file per tmux window, publishes every
  completed line on a channel after removing CSI escape sequences, and offers the Lua
  calls \<^verbatim>\<open>spawn\<close>, \<^verbatim>\<open>send\<close>, \<^verbatim>\<open>expect\<close>, \<^verbatim>\<open>expectAny\<close> on top of that channel.
  Go strings are byte sequences; they are modelled as \<^typ>\<open>string\<close> (a list of 8-bit
  characters).
\<close>

subsection \<open>Removing escape sequences\<close>

text \<open>
  \<^verbatim>\<open>ansiRegexp = regexp.MustCompile(`\x1b\[[0-9;?]*[A-Za-z]`)\<close> and
  \<^verbatim>\<open>removeANSIEscapeSequences(s) = ansiRegexp.ReplaceAllString(s, "")\<close>.
  The two character classes are disjoint, so at a given start there is at most one match:
  ESC, an opening bracket, the longest run of parameter bytes, one letter.
  \<^verbatim>\<open>ReplaceAllString\<close> goes through the text once from the left, drops each match and
  resumes behind it; a byte at which no match starts is copied.
\<close>

definition ESC :: char where
  "ESC = CHR 0x1B"

definition newline :: char where
  "newline = CHR 0x0A"

definition is_param :: "char \<Rightarrow> bool" where
  "is_param c = ((48 \<le> (of_char c :: nat) \<and> (of_char c :: nat) \<le> 57) \<or> c = CHR '';'' \<or> c = CHR ''?'')"

definition is_letter :: "char \<Rightarrow> bool" where
  "is_letter c = ((65 \<le> (of_char c :: nat) \<and> (of_char c :: nat) \<le> 90)
     \<or> (97 \<le> (of_char c :: nat) \<and> (of_char c :: nat) \<le> 122))"

text \<open>The length of the match of the expression at the head of the text, if there is one.\<close>

definition ansi_match :: "string \<Rightarrow> nat option" where
  "ansi_match s =
     (case s of
        c # d # rest \<Rightarrow>
          (if c = ESC \<and> d = CHR ''[''
           then (case dropWhile is_param rest of
                   [] \<Rightarrow> None
                 | f # _ \<Rightarrow> if is_letter f then Some (length (takeWhile is_param rest) + 3) else None)
           else None)
      | _ \<Rightarrow> None)"

function removeANSIEscapeSequences :: "string \<Rightarrow> string" where
  "removeANSIEscapeSequences [] = []"
| "removeANSIEscapeSequences (c # cs) =
     (case ansi_match (c # cs) of
        Some n \<Rightarrow> removeANSIEscapeSequences (drop n (c # cs))
      | None \<Rightarrow> c # removeANSIEscapeSequences cs)"
  by pat_completeness auto

termination removeANSIEscapeSequences
  by (relation "measure length") (auto simp: ansi_match_def split: list.splits if_splits)

text \<open>
  A text as the terminal sees it, for comparison: pieces of plain text and CSI sequences
  (parameter bytes and a final letter). \<open>raw\<close> is the byte sequence, \<open>visible\<close> what is
  left when the sequences are taken out.
\<close>

datatype piece = Plain string | CSI string char

fun piece_ok :: "piece \<Rightarrow> bool" where
  "piece_ok (Plain s) = (ESC \<notin> set s)"
| "piece_ok (CSI ps f) = (list_all is_param ps \<and> is_letter f)"

fun raw :: "piece list \<Rightarrow> string" where
  "raw [] = []"
| "raw (Plain s # ps) = s @ raw ps"
| "raw (CSI params f # ps) = ESC # CHR ''['' # params @ f # raw ps"

fun visible :: "piece list \<Rightarrow> string" where
  "visible [] = []"
| "visible (Plain s # ps) = s @ visible ps"
| "visible (CSI params f # ps) = visible ps"

subsection \<open>The tailer's read loop\<close>

text \<open>
  The inner loop of \<^verbatim>\<open>watchFileLines\<close>: it reads the bytes that are available one by
  one, appends each to the builder \<^verbatim>\<open>line\<close>, and when the byte is a newline sends the
  cleaned builder content on \<^verbatim>\<open>recvLineCh\<close> and resets the builder. At end of file
  \<^verbatim>\<open>ReadByte\<close> fails and the loop is left with the builder as it is. The result is the
  list of lines sent and the builder.
\<close>

fun read_loop :: "string \<Rightarrow> string \<Rightarrow> string list \<times> string" where
  "read_loop line [] = ([], line)"
| "read_loop line (b # bs) =
     (if b = newline
      then (case read_loop [] bs of (sent, line') \<Rightarrow>
              (removeANSIEscapeSequences (line @ [b]) # sent, line'))
      else read_loop (line @ [b]) bs)"

text \<open>
  The outer loop over a sequence of \<^verbatim>\<open>fsnotify.Write\<close> events, each of which finds a
  chunk of new bytes in the file; the builder survives from one event to the next.
\<close>

fun on_write_events :: "string \<Rightarrow> string list \<Rightarrow> string list \<times> string" where
  "on_write_events line [] = ([], line)"
| "on_write_events line (chunk # chunks) =
     (case read_loop line chunk of (sent, line') \<Rightarrow>
        (case on_write_events line' chunks of (sent', line'') \<Rightarrow> (sent @ sent', line'')))"

subsection \<open>The tailer: \<^verbatim>\<open>watchFileLines\<close>\<close>

text \<open>
  What the tailer finds when it starts. \<^verbatim>\<open>fsnotify.NewWatcher\<close> and
  \<^verbatim>\<open>watcher.Add\<close> are called with their errors ignored; so is \<^verbatim>\<open>os.Open\<close>. A failed
  \<^verbatim>\<open>NewWatcher\<close> leaves a nil watcher, on which \<^verbatim>\<open>Add\<close> dereferences nil. A failed
  \<^verbatim>\<open>Open\<close> leaves a nil file, on which \<^verbatim>\<open>Seek\<close> returns \<^verbatim>\<open>os.ErrInvalid\<close>; this is
  the only error \<^verbatim>\<open>watchFileLines\<close> returns before its loop.
\<close>

datatype go_error = ErrInvalid | SeekError | WatchError

datatype watcher_state = Watching | AddFailed | NilWatcher

record fs_env =
  watcher :: watcher_state
  file_opened :: bool
  seek_fails :: bool

text \<open>
  What the \<^verbatim>\<open>select\<close> of the tailer receives: an event of the watcher (a write comes
  with the content of the file at the time it is handled), an error of the watcher, or
  the cancellation of the context.
\<close>

datatype event = Write string | OtherOp | Error | Done

datatype exit = Returned "go_error option" | Panicked | Waiting

text \<open>
  The reader continues at the offset it has reached: a write event reads the bytes of the
  file from there to its end. The lines sent so far and the way the loop ends are the
  result; \<open>Waiting\<close> is the loop blocked in its \<^verbatim>\<open>select\<close> with no event left.
\<close>

fun event_loop :: "nat \<Rightarrow> string \<Rightarrow> event list \<Rightarrow> string list \<times> exit" where
  "event_loop offset line [] = ([], Waiting)"
| "event_loop offset line (Write content # evs) =
     (case read_loop line (drop offset content) of (sent, line') \<Rightarrow>
        (case event_loop (max offset (length content)) line' evs of (sent', x) \<Rightarrow>
           (sent @ sent', x)))"
| "event_loop offset line (OtherOp # evs) = event_loop offset line evs"
| "event_loop offset line (Error # evs) = ([], Returned (Some WatchError))"
| "event_loop offset line (Done # evs) = ([], Returned None)"

text \<open>
  \<open>content0\<close> is the content of the file when \<^verbatim>\<open>file.Seek(0, io.SeekEnd)\<close> runs. A
  watcher whose \<^verbatim>\<open>Add\<close> failed delivers no event: only the cancellation reaches the loop.
\<close>

definition watchFileLines :: "fs_env \<Rightarrow> string \<Rightarrow> event list \<Rightarrow> string list \<times> exit" where
  "watchFileLines env content0 evs =
     (if watcher env = NilWatcher then ([], Panicked)
      else if \<not> file_opened env then ([], Returned (Some ErrInvalid))
      else if seek_fails env then ([], Returned (Some SeekError))
      else event_loop (length content0) []
             (if watcher env = Watching then evs else filter (\<lambda>e. e = Done) evs))"

text \<open>
  The history of an append-only file as the contents seen by successive write events:
  \<open>content0\<close> followed by more and more of the appended chunks.
\<close>

fun appended :: "string \<Rightarrow> string list \<Rightarrow> event list" where
  "appended content [] = []"
| "appended content (chunk # chunks) = Write (content @ chunk) # appended (content @ chunk) chunks"

subsection \<open>Registration of a source\<close>

text \<open>
  \<^verbatim>\<open>AddFilePath\<close> sends the path on \<^verbatim>\<open>filePathCh\<close> and returns nothing.
  \<^verbatim>\<open>watchLatestLine\<close> starts a goroutine per path that runs
  \<^verbatim>\<open>_ = l.watchFileLines(ctx, p)\<close>, and returns nil at both of its returns; \<^verbatim>\<open>Watch\<close>
  prints a diagnostic only for a non-nil result of \<^verbatim>\<open>watchLatestLine\<close>.
\<close>

definition watchLatestLine :: "exit list \<Rightarrow> go_error option" where
  "watchLatestLine tailers = None"

definition Watch :: "exit list \<Rightarrow> string list" where
  "Watch tailers =
     (case watchLatestLine tailers of None \<Rightarrow> [] | Some e \<Rightarrow> [''Error watching files:''])"

record registration =
  reported :: "go_error option"
  printed :: "string list"
  delivered :: "string list"
  tailer :: exit

text \<open>
  What a registration comes to. A tailer that returns, or that waits in its loop, leaves
  the registrant with no result and the output as \<^verbatim>\<open>Watch\<close> has it. A tailer that
  dereferences the nil watcher panics in its goroutine, where nothing recovers: the
  process ends there with the runtime's panic report.
\<close>

datatype registered = Registered registration | ProcessPanics

definition AddFilePath :: "fs_env \<Rightarrow> string \<Rightarrow> event list \<Rightarrow> registered" where
  "AddFilePath env content0 evs =
     (case watchFileLines env content0 evs of (sent, x) \<Rightarrow>
        (case x of
           Panicked \<Rightarrow> ProcessPanics
         | _ \<Rightarrow> Registered \<lparr>reported = None, printed = Watch [x], delivered = sent, tailer = x\<rparr>))"

subsection \<open>The channel between the tailers and the consumer\<close>

text \<open>
  A Go channel of strings: a send hands the value over at once when a receiver is
  waiting, stores it when the buffer has room, and blocks otherwise.
  \<^verbatim>\<open>NewLineWatcher\<close> makes both channels with \<^verbatim>\<open>make(chan string)\<close>, which has no
  buffer.
\<close>

record chan =
  capacity :: nat
  buffered :: "string list"

definition make_chan :: "nat \<Rightarrow> chan" where
  "make_chan n = \<lparr>capacity = n, buffered = []\<rparr>"

record LineWatcher =
  filePathCh :: chan
  recvLineCh :: chan

definition NewLineWatcher :: LineWatcher where
  "NewLineWatcher = \<lparr>filePathCh = make_chan 0, recvLineCh = make_chan 0\<rparr>"

datatype tailer_status = Idle string | BlockedOnSend string string

text \<open>
  The read loop again, with the send on the channel written out. \<open>n\<close> is the number of
  lines the consumer is going to receive. The result is the lines the consumer received,
  the channel, and where the tailer stands: back in its \<^verbatim>\<open>select\<close> with its builder, or
  blocked in the send of a line with the rest of the bytes unread.
\<close>

fun read_loop_chan :: "nat \<Rightarrow> chan \<Rightarrow> string \<Rightarrow> string \<Rightarrow> string list \<times> chan \<times> tailer_status" where
  "read_loop_chan n ch line [] = ([], ch, Idle line)"
| "read_loop_chan n ch line (b # bs) =
     (if b = newline
      then (case n of
              Suc m \<Rightarrow>
                (case read_loop_chan m ch [] bs of (received, ch', st) \<Rightarrow>
                   (removeANSIEscapeSequences (line @ [b]) # received, ch', st))
            | 0 \<Rightarrow>
                if length (buffered ch) < capacity ch
                then read_loop_chan 0
                       (ch\<lparr>buffered := buffered ch @ [removeANSIEscapeSequences (line @ [b])]\<rparr>) [] bs
                else ([], ch, BlockedOnSend (removeANSIEscapeSequences (line @ [b])) bs))
      else read_loop_chan n ch (line @ [b]) bs)"

subsection \<open>The wait engine: \<^verbatim>\<open>expect\<close> and \<^verbatim>\<open>expectAny\<close>\<close>

text \<open>
  \<^verbatim>\<open>strings.Contains(s, substr)\<close>: \<open>substr\<close> occurs in \<open>s\<close> at some position.
\<close>

fun Contains :: "string \<Rightarrow> string \<Rightarrow> bool" where
  "Contains [] substr = (substr = [])"
| "Contains (c # s) substr = (prefix substr (c # s) \<or> Contains s substr)"

text \<open>
  \<^verbatim>\<open>timeout := L.OptInt(2, math.MaxInt)\<close> and
  \<^verbatim>\<open>time.After(time.Duration(timeout) * time.Second)\<close>. \<open>intSize\<close> is the width of
  Go's \<^verbatim>\<open>int\<close> on the platform (64 or 32). A \<^verbatim>\<open>time.Duration\<close> is an \<^verbatim>\<open>int64\<close> of
  nanoseconds and \<^verbatim>\<open>time.Second\<close> is \<open>10\<^sup>9\<close>; the product wraps around. The timer of
  \<^verbatim>\<open>time.After\<close> fires once the duration has passed, at once when it is not positive.
  Times are nanoseconds since the call.
\<close>

definition MaxInt :: "nat \<Rightarrow> int" where
  "MaxInt intSize = 2 ^ (intSize - 1) - 1"

definition OptInt :: "int option \<Rightarrow> int \<Rightarrow> int" where
  "OptInt arg d = (case arg of None \<Rightarrow> d | Some n \<Rightarrow> n)"

definition Second :: "64 word" where
  "Second = 1000000000"

definition Duration :: "int \<Rightarrow> 64 word" where
  "Duration n = word_of_int n"

definition After :: "64 word \<Rightarrow> int" where
  "After d = max 0 (sint d)"

text \<open>
  One \<^verbatim>\<open>select\<close> between the line channel and the timer channel, evaluated at time
  \<open>now\<close>: \<open>t\<close> is the time from which a tailer offers the next line, \<open>fire\<close> the time
  the timer fires. The case that is ready first is taken; when both are ready at the same
  moment Go chooses at random, which is the argument \<open>choice\<close>.
\<close>

datatype select_case = RecvLine | TimeoutCh

definition select_ready :: "int \<Rightarrow> bool \<Rightarrow> int \<Rightarrow> int \<Rightarrow> select_case" where
  "select_ready fire choice now t =
     (if max now t < max now fire then RecvLine
      else if max now fire < max now t then TimeoutCh
      else if choice then RecvLine else TimeoutCh)"

record outcome =
  ret :: int
  returned_at :: int
  unconsumed :: "(int \<times> string) list"

text \<open>
  The loop of \<^verbatim>\<open>expect\<close>. \<open>lines\<close> are the lines the tailers offer, each with the time
  from which it is offered; \<open>pick k\<close> is the random choice of the \<open>k\<close>-th \<^verbatim>\<open>select\<close>.
  When no line is offered any more the timer is the only case left.
\<close>

fun expect_loop :: "string \<Rightarrow> int \<Rightarrow> (nat \<Rightarrow> bool) \<Rightarrow> nat \<Rightarrow> int \<Rightarrow> (int \<times> string) list \<Rightarrow> outcome" where
  "expect_loop expectedText fire pick k now [] =
     \<lparr>ret = - 1, returned_at = max now fire, unconsumed = []\<rparr>"
| "expect_loop expectedText fire pick k now ((t, line) # rest) =
     (case select_ready fire (pick k) now t of
        RecvLine \<Rightarrow>
          if Contains line expectedText
          then \<lparr>ret = 0, returned_at = max now t, unconsumed = rest\<rparr>
          else expect_loop expectedText fire pick (Suc k) (max now t) rest
      | TimeoutCh \<Rightarrow>
          \<lparr>ret = - 1, returned_at = max now fire, unconsumed = (t, line) # rest\<rparr>)"

text \<open>The choice that always takes the line when both cases are ready.\<close>

definition always_line :: "nat \<Rightarrow> bool" where
  "always_line k = True"

definition expect :: "nat \<Rightarrow> string \<Rightarrow> int option \<Rightarrow> (nat \<Rightarrow> bool) \<Rightarrow> (int \<times> string) list \<Rightarrow> outcome" where
  "expect intSize expectedText arg2 pick lines =
     expect_loop expectedText (After (Duration (OptInt arg2 (MaxInt intSize)) * Second)) pick 0 0 lines"

text \<open>
  \<^verbatim>\<open>for index, expectedText := range expectedTexts\<close>: the first index, counted from
  \<open>index\<close>, whose text the line contains.
\<close>

fun range_match :: "string \<Rightarrow> string list \<Rightarrow> nat \<Rightarrow> nat option" where
  "range_match line [] index = None"
| "range_match line (expectedText # expectedTexts) index =
     (if Contains line expectedText then Some index
      else range_match line expectedTexts (Suc index))"

fun expectAny_loop :: "string list \<Rightarrow> int \<Rightarrow> (nat \<Rightarrow> bool) \<Rightarrow> nat \<Rightarrow> int \<Rightarrow> (int \<times> string) list \<Rightarrow> outcome" where
  "expectAny_loop expectedTexts fire pick k now [] =
     \<lparr>ret = - 1, returned_at = max now fire, unconsumed = []\<rparr>"
| "expectAny_loop expectedTexts fire pick k now ((t, line) # rest) =
     (case select_ready fire (pick k) now t of
        RecvLine \<Rightarrow>
          (case range_match line expectedTexts 0 of
             Some index \<Rightarrow> \<lparr>ret = int index, returned_at = max now t, unconsumed = rest\<rparr>
           | None \<Rightarrow> expectAny_loop expectedTexts fire pick (Suc k) (max now t) rest)
      | TimeoutCh \<Rightarrow>
          \<lparr>ret = - 1, returned_at = max now fire, unconsumed = (t, line) # rest\<rparr>)"

definition expectAny :: "nat \<Rightarrow> string list \<Rightarrow> int option \<Rightarrow> (nat \<Rightarrow> bool) \<Rightarrow> (int \<times> string) list \<Rightarrow> outcome" where
  "expectAny intSize expectedTexts arg2 pick lines =
     expectAny_loop expectedTexts (After (Duration (OptInt arg2 (MaxInt intSize)) * Second)) pick 0 0 lines"

subsection \<open>Windows: \<^verbatim>\<open>spawn\<close> and \<^verbatim>\<open>send\<close>\<close>

text \<open>
  \<^verbatim>\<open>strings.Split(s, "\n")\<close>: the pieces of \<open>s\<close> between the newlines, one more
  than there are newlines; the piece behind a final newline is the empty string, and the
  empty text has the empty string as its one piece.
\<close>

fun split_from :: "string \<Rightarrow> string \<Rightarrow> string list" where
  "split_from piece [] = [piece]"
| "split_from piece (c # cs) =
     (if c = newline then piece # split_from [] cs else split_from (piece @ [c]) cs)"

definition Split :: "string \<Rightarrow> string list" where
  "Split s = split_from [] s"

text \<open>
  \<^verbatim>\<open>Window.Start\<close> asks tmux for the window names, refuses a name that is among the
  pieces of the answer, creates the window and pipes its pane into the log file; each of
  the three tmux commands may fail. What tmux answers is the argument \<open>tm\<close>:
  \<open>list_windows\<close> is the output of \<^verbatim>\<open>tmux list-windows\<close>, if the command succeeded.
\<close>

record tmux =
  list_windows :: "string option"
  new_window_ok :: bool
  pipe_pane_ok :: bool

datatype start_error = ListFailed | AlreadyExists string | CreateFailed | PipePaneFailed

definition Start :: "tmux \<Rightarrow> string \<Rightarrow> start_error option" where
  "Start tm windowName =
     (case list_windows tm of
        None \<Rightarrow> Some ListFailed
      | Some out \<Rightarrow>
          if windowName \<in> set (Split out) then Some (AlreadyExists windowName)
          else if \<not> new_window_ok tm then Some CreateFailed
          else if \<not> pipe_pane_ok tm then Some PipePaneFailed
          else None)"

record Window =
  name :: string
  command :: string

text \<open>
  \<^verbatim>\<open>spawn\<close> enters the window into the global \<^verbatim>\<open>windowMap\<close> only after \<^verbatim>\<open>Start\<close> has
  succeeded; otherwise it raises a Lua error and the map is as before.
\<close>

definition spawn :: "(string \<rightharpoonup> Window) \<Rightarrow> tmux \<Rightarrow> string \<Rightarrow> string \<Rightarrow> (string \<rightharpoonup> Window) \<times> start_error option" where
  "spawn windowMap tm windowName cmd =
     (case Start tm windowName of
        Some e \<Rightarrow> (windowMap, Some e)
      | None \<Rightarrow> (windowMap(windowName \<mapsto> \<lparr>name = windowName, command = cmd\<rparr>), None))"

text \<open>
  \<^verbatim>\<open>SendCommand\<close> runs \<^verbatim>\<open>tmux send-keys -t name command C-m\<close>; the result here is the
  argument vector. \<^verbatim>\<open>send\<close> looks the name up in \<^verbatim>\<open>windowMap\<close>, which gives a nil
  pointer for a name that is not there, and calls \<^verbatim>\<open>win.SendCommand\<close>, whose receiver is
  a \<^verbatim>\<open>Window\<close> value: the call dereferences the pointer, and Go panics on nil.
\<close>

datatype send_result = Sent "string list" | NilPointerDereference

definition SendCommand :: "Window \<Rightarrow> string \<Rightarrow> string list" where
  "SendCommand w cmd = [''tmux'', ''send-keys'', ''-t'', name w, cmd, ''C-m'']"

definition send :: "(string \<rightharpoonup> Window) \<Rightarrow> string \<Rightarrow> string \<Rightarrow> send_result" where
  "send windowMap windowName cmd =
     (case windowMap windowName of
        None \<Rightarrow> NilPointerDereference
      | Some win \<Rightarrow> Sent (SendCommand win cmd))"

subsection \<open>The script and the process: \<^verbatim>\<open>main\<close>\<close>

text \<open>
  The calls of a script that touch the windows: \<^verbatim>\<open>spawn\<close> with what tmux answers at
  that moment, \<^verbatim>\<open>send\<close>, and either of them under Lua's \<^verbatim>\<open>pcall\<close>. A call ends
  normally or with a Lua error. The error of \<^verbatim>\<open>spawn\<close> is the one it raises with
  \<^verbatim>\<open>L.RaiseError\<close>. The functions run under the protected call of the Lua state, which
  recovers a panic of a Go function and hands it on as an error: the nil dereference of
  \<^verbatim>\<open>send\<close> arrives as one. Under \<^verbatim>\<open>pcall\<close> an error is a result of the call, and the
  script goes on.
\<close>

datatype call = Spawn tmux string string | Send string string | Pcall call

datatype lua_error = RaisedError start_error | RecoveredPanic

fun api_call :: "(string \<rightharpoonup> Window) \<Rightarrow> call \<Rightarrow> (string \<rightharpoonup> Window) \<times> lua_error option" where
  "api_call windowMap (Spawn tm windowName cmd) =
     (case spawn windowMap tm windowName cmd of
        (windowMap', Some e) \<Rightarrow> (windowMap', Some (RaisedError e))
      | (windowMap', None) \<Rightarrow> (windowMap', None))"
| "api_call windowMap (Send windowName cmd) =
     (case send windowMap windowName cmd of
        NilPointerDereference \<Rightarrow> (windowMap, Some RecoveredPanic)
      | Sent argv \<Rightarrow> (windowMap, None))"
| "api_call windowMap (Pcall c) = (fst (api_call windowMap c), None)"

text \<open>
  \<^verbatim>\<open>L.DoString\<close> runs the calls in order and stops at the first error, which is its
  result. \<^verbatim>\<open>main\<close> starts with the empty \<^verbatim>\<open>windowMap\<close>, prints an error of
  \<^verbatim>\<open>DoString\<close> behind \<^verbatim>\<open>Lua script execution error:\<close> and returns, with or without
  one: the process exits with status 0.
\<close>

fun DoString :: "(string \<rightharpoonup> Window) \<Rightarrow> call list \<Rightarrow> (string \<rightharpoonup> Window) \<times> lua_error option" where
  "DoString windowMap [] = (windowMap, None)"
| "DoString windowMap (c # cs) =
     (case api_call windowMap c of
        (windowMap', Some e) \<Rightarrow> (windowMap', Some e)
      | (windowMap', None) \<Rightarrow> DoString windowMap' cs)"

datatype process_end = Exited nat | Crashed

definition main :: "call list \<Rightarrow> lua_error option \<times> process_end" where
  "main script =
     (case snd (DoString Map.empty script) of
        Some err \<Rightarrow> (Some err, Exited 0)
      | None \<Rightarrow> (None, Exited 0))"

text \<open>Whether a call is a \<^verbatim>\<open>spawn\<close> of the name that succeeds, under \<^verbatim>\<open>pcall\<close> or not.\<close>

fun spawned_by :: "string \<Rightarrow> call \<Rightarrow> bool" where
  "spawned_by windowName (Spawn tm n cmd) = (n = windowName \<and> Start tm n = None)"
| "spawned_by windowName (Send n cmd) = False"
| "spawned_by windowName (Pcall c) = spawned_by windowName c"

section \<open>Properties\<close>

subsection \<open>Escape sequences and the read loop\<close>

lemma ansi_match_le: "ansi_match s = Some n \<Longrightarrow> n \<le> length s"
proof -
  assume "ansi_match s = Some n"
  then obtain c d rest f r where s: "s = c # d # rest" and n: "n = length (takeWhile is_param rest) + 3"
    and d: "dropWhile is_param rest = f # r"
    by (auto simp: ansi_match_def split: list.splits if_splits)
  have "length rest = length (takeWhile is_param rest) + length (dropWhile is_param rest)"
    by (metis takeWhile_dropWhile_id length_append)
  then show ?thesis using s n d by simp
qed

lemma not_letter_newline: "\<not> is_letter newline"
  by (simp add: is_letter_def newline_def)

lemma not_param_newline: "\<not> is_param newline"
  by (simp add: is_param_def newline_def)

lemma final_snoc_newline:
  "(case xs @ [newline] of [] \<Rightarrow> None | f # _ \<Rightarrow> if is_letter f then Some (k::nat) else None) =
   (case xs of [] \<Rightarrow> None | f # _ \<Rightarrow> if is_letter f then Some k else None)"
  by (cases xs) (simp_all add: not_letter_newline)

lemma ansi_match_snoc_newline: "ansi_match (c # cs @ [newline]) = ansi_match (c # cs)"
proof (cases cs)
  case Nil
  then show ?thesis by (simp add: ansi_match_def newline_def)
next
  case (Cons d rest)
  have tw: "takeWhile is_param (rest @ [newline]) = takeWhile is_param rest"
    by (induction rest) (auto simp: not_param_newline)
  have dw: "dropWhile is_param (rest @ [newline]) = dropWhile is_param rest @ [newline]"
    by (induction rest) (auto simp: not_param_newline)
  show ?thesis unfolding Cons
    by (simp only: ansi_match_def append_Cons list.case tw dw final_snoc_newline)
qed

lemma removeANSI_snoc_newline:
  "removeANSIEscapeSequences (s @ [newline]) = removeANSIEscapeSequences s @ [newline]"
proof (induction s rule: removeANSIEscapeSequences.induct)
  case 1
  show ?case by (simp add: ansi_match_def)
next
  case (2 c cs)
  show ?case
  proof (cases "ansi_match (c # cs)")
    case None
    then have "ansi_match (c # cs @ [newline]) = None"
      by (simp only: ansi_match_snoc_newline)
    with None 2(1) show ?thesis by simp
  next
    case (Some n)
    then have m: "ansi_match (c # cs @ [newline]) = Some n"
      by (simp only: ansi_match_snoc_newline)
    have "n \<le> length (c # cs)" using Some by (rule ansi_match_le)
    then have "drop n ((c # cs) @ [newline]) = drop n (c # cs) @ [newline]"
      unfolding drop_append by simp
    then have d: "drop n (c # cs @ [newline]) = drop n (c # cs) @ [newline]"
      by (simp only: append_Cons)
    have "removeANSIEscapeSequences ((c # cs) @ [newline]) = removeANSIEscapeSequences (drop n (c # cs @ [newline]))"
      using m by (simp del: drop_append)
    also have "\<dots> = removeANSIEscapeSequences (drop n (c # cs)) @ [newline]"
      unfolding d using 2(2) [OF Some] .
    also have "\<dots> = removeANSIEscapeSequences (c # cs) @ [newline]"
      using Some by simp
    finally show ?thesis .
  qed
qed

lemma read_loop_append:
  "read_loop line (xs @ ys) =
     (case read_loop line xs of (s1, l1) \<Rightarrow>
        (case read_loop l1 ys of (s2, l2) \<Rightarrow> (s1 @ s2, l2)))"
  by (induction xs arbitrary: line) (auto split: prod.splits)

lemma read_loop_no_newline: "newline \<notin> set xs \<Longrightarrow> read_loop line xs = ([], line @ xs)"
  by (induction xs arbitrary: line) auto

lemma length_read_loop': "read_loop line xs = (sent, l) \<Longrightarrow> length sent = count_list xs newline"
  by (induction xs arbitrary: line sent l) (auto split: prod.splits if_splits)

lemma length_read_loop: "length (fst (read_loop line xs)) = count_list xs newline"
  using length_read_loop' [of line xs] by (cases "read_loop line xs") simp

lemma on_write_events_concat: "on_write_events line chunks = read_loop line (concat chunks)"
  by (induction chunks arbitrary: line) (auto simp: read_loop_append split: prod.splits)

lemma ansi_match_not_ESC: "ESC \<noteq> c \<Longrightarrow> ansi_match (c # cs) = None"
  by (cases cs) (auto simp: ansi_match_def)

lemma removeANSI_no_ESC: "ESC \<notin> set s \<Longrightarrow> removeANSIEscapeSequences (s @ t) = s @ removeANSIEscapeSequences t"
  by (induction s) (simp_all add: ansi_match_not_ESC)

lemma removeANSI_CSI:
  assumes "list_all is_param ps" "is_letter f"
  shows "removeANSIEscapeSequences (ESC # CHR ''['' # ps @ f # t) = removeANSIEscapeSequences t"
proof -
  have np: "\<not> is_param f" using assms(2) by (auto simp: is_param_def is_letter_def)
  have tw: "takeWhile is_param (ps @ f # t) = ps" using assms(1) np
    by (induction ps) auto
  have dw: "dropWhile is_param (ps @ f # t) = f # t" using assms(1) np
    by (induction ps) auto
  have m: "ansi_match (ESC # CHR ''['' # ps @ f # t) = Some (length ps + 3)"
    using assms(2) by (simp add: ansi_match_def tw dw)
  have d: "drop (length ps + 3) (ESC # CHR ''['' # ps @ f # t) = t"
    by (simp add: numeral_3_eq_3)
  show ?thesis
    by (simp only: removeANSIEscapeSequences.simps m option.case d)
qed

lemma removeANSI_raw: "\<forall>p\<in>set pieces. piece_ok p \<Longrightarrow> removeANSIEscapeSequences (raw pieces) = visible pieces"
proof (induction pieces)
  case Nil
  show ?case by simp
next
  case (Cons p pieces)
  show ?case
  proof (cases p)
    case (Plain s)
    with Cons show ?thesis by (simp add: removeANSI_no_ESC)
  next
    case (CSI ps f)
    with Cons have "list_all is_param ps" "is_letter f" by simp_all
    then have "removeANSIEscapeSequences (ESC # CHR ''['' # ps @ f # raw pieces) = removeANSIEscapeSequences (raw pieces)"
      by (rule removeANSI_CSI)
    with Cons CSI show ?thesis by (simp del: removeANSIEscapeSequences.simps)
  qed
qed

lemma read_loop_sent_last:
  "read_loop line xs = (sent, l) \<Longrightarrow> \<forall>x\<in>set sent. x \<noteq> [] \<and> last x = newline"
proof (induction xs arbitrary: line sent l)
  case Nil
  then show ?case by simp
next
  case (Cons b bs)
  show ?case
  proof (cases "b = newline")
    case True
    obtain sent' l' where r: "read_loop [] bs = (sent', l')" by (cases "read_loop [] bs")
    from Cons.IH [OF r] have ih: "\<forall>x\<in>set sent'. x \<noteq> [] \<and> last x = newline" .
    from Cons.prems True r have "sent = removeANSIEscapeSequences (line @ [newline]) # sent'"
      by simp
    then show ?thesis using ih by (simp add: removeANSI_snoc_newline)
  next
    case False
    with Cons.prems have "read_loop (line @ [b]) bs = (sent, l)" by simp
    then show ?thesis by (rule Cons.IH)
  qed
qed

lemma event_loop_appended:
  "event_loop (length content) line (appended content chunks) =
     (fst (read_loop line (concat chunks)), Waiting)"
proof (induction chunks arbitrary: content line)
  case Nil
  show ?case by simp
next
  case (Cons chunk chunks)
  obtain s1 l1 where r1: "read_loop line chunk = (s1, l1)" by (cases "read_loop line chunk")
  obtain s2 l2 where r2: "read_loop l1 (concat chunks) = (s2, l2)"
    by (cases "read_loop l1 (concat chunks)")
  have "event_loop (length (content @ chunk)) l1 (appended (content @ chunk) chunks) = (s2, Waiting)"
    using Cons [of "content @ chunk" l1] r2 by simp
  then show ?case using r1 r2 by (simp add: read_loop_append)
qed

subsection \<open>The wait loops\<close>

lemma Contains_sublist: "Contains s substr \<longleftrightarrow> sublist substr s"
  by (induction s) (simp_all add: sublist_Cons_right)

lemma range_match_None:
  "\<forall>p\<in>set pats. \<not> Contains l p \<Longrightarrow> range_match l pats k = None"
  by (induction pats arbitrary: k) simp_all

lemma range_match_Some:
  "i < length pats \<Longrightarrow> Contains l (pats ! i) \<Longrightarrow> \<forall>j<i. \<not> Contains l (pats ! j)
   \<Longrightarrow> range_match l pats k = Some (k + i)"
proof (induction pats arbitrary: i k)
  case Nil
  then show ?case by simp
next
  case (Cons p pats)
  show ?case
  proof (cases i)
    case 0
    with Cons.prems show ?thesis by simp
  next
    case (Suc i')
    from Cons.prems(3) Suc have np: "\<not> Contains l p" by auto
    have "range_match l pats (Suc k) = Some (Suc k + i')"
    proof (rule Cons.IH)
      show "i' < length pats" using Cons.prems(1) Suc by simp
      show "Contains l (pats ! i')" using Cons.prems(2) Suc by simp
      show "\<forall>j<i'. \<not> Contains l (pats ! j)" using Cons.prems(3) Suc by auto
    qed
    with np Suc show ?thesis by simp
  qed
qed

lemma select_ready_before: "now < fire \<Longrightarrow> t < fire \<Longrightarrow> select_ready fire c now t = RecvLine"
  by (simp add: select_ready_def)

lemma select_ready_elapsed: "fire \<le> now \<Longrightarrow> now < t \<Longrightarrow> select_ready fire c now t = TimeoutCh"
  by (simp add: select_ready_def)

lemma expectAny_loop_first_match:
  assumes "\<forall>x\<in>set pre. fst x < fire \<and> (\<forall>p\<in>set pats. \<not> Contains (snd x) p)"
    and "now < fire" and "t < fire"
    and "range_match l pats 0 = Some i"
  shows "ret (expectAny_loop pats fire pick k now (pre @ (t, l) # post)) = int i
     \<and> unconsumed (expectAny_loop pats fire pick k now (pre @ (t, l) # post)) = post"
  using assms
proof (induction pre arbitrary: k now)
  case Nil
  then show ?case by (simp add: select_ready_before)
next
  case (Cons x pre)
  obtain t' l' where x: "x = (t', l')" by (cases x)
  from Cons.prems(1) x have t': "t' < fire" and nm: "\<forall>p\<in>set pats. \<not> Contains l' p" by auto
  have m: "range_match l' pats 0 = None" using nm by (rule range_match_None)
  have "max now t' < fire" using Cons.prems(2) t' by simp
  then have ih: "ret (expectAny_loop pats fire pick (Suc k) (max now t') (pre @ (t, l) # post)) = int i
     \<and> unconsumed (expectAny_loop pats fire pick (Suc k) (max now t') (pre @ (t, l) # post)) = post"
    using Cons.IH [of "max now t'" "Suc k"] Cons.prems by simp
  show ?case using ih m x
    by (simp add: select_ready_before [OF Cons.prems(2) t'])
qed

lemma expectAny_loop_empty:
  "ret (expectAny_loop [] fire pick k now lines) = - 1
   \<and> returned_at (expectAny_loop [] fire pick k now lines) = max now fire"
proof (induction lines arbitrary: k now)
  case Nil
  show ?case by simp
next
  case (Cons x lines)
  obtain t l where x: "x = (t, l)" by (cases x)
  show ?case
  proof (cases "select_ready fire (pick k) now t")
    case RecvLine
    then have "max now t \<le> max now fire"
      by (auto simp: select_ready_def split: if_splits)
    then have "max (max now t) fire = max now fire" by simp
    with Cons [of "Suc k" "max now t"] RecvLine x show ?thesis by simp
  next
    case TimeoutCh
    with x show ?thesis by simp
  qed
qed

lemma expect_loop_expectAny_loop:
  "expect_loop p fire pick k now lines = expectAny_loop [p] fire pick k now lines"
proof (induction lines arbitrary: k now)
  case Nil
  show ?case by simp
next
  case (Cons x lines)
  obtain t l where x: "x = (t, l)" by (cases x)
  show ?case unfolding x using Cons
    by (cases "select_ready fire (pick k) now t") simp_all
qed

lemma expect_loop_ret: "ret (expect_loop p fire pick k now lines) = 0 \<or> ret (expect_loop p fire pick k now lines) = - 1"
proof (induction lines arbitrary: k now)
  case Nil
  show ?case by simp
next
  case (Cons x lines)
  obtain t l where x: "x = (t, l)" by (cases x)
  show ?case unfolding x using Cons
    by (cases "select_ready fire (pick k) now t") simp_all
qed

lemma default_duration_64: "sint (Duration (OptInt None (MaxInt 64)) * Second) = - 1000000000"
  by (simp add: Duration_def MaxInt_def Second_def OptInt_def)

lemma default_duration_32: "sint (Duration (OptInt None (MaxInt 32)) * Second) = 2147483647000000000"
  by (simp add: Duration_def MaxInt_def Second_def OptInt_def)

lemma sint_word_of_int_64:
  "- (2 ^ 63) \<le> m \<Longrightarrow> m < 2 ^ 63 \<Longrightarrow> sint (word_of_int m :: 64 word) = m"
  by (simp add: sint_sbintrunc' signed_take_bit_int_eq_self)

lemma duration_seconds:
  assumes "0 \<le> n" "n \<le> 9223372036"
  shows "sint (Duration n * Second) = n * 1000000000"
proof -
  have e: "Duration n * Second = (word_of_int (n * 1000000000) :: 64 word)"
    by (simp add: Duration_def Second_def)
  have "- (2 ^ 63) \<le> n * 1000000000" "n * 1000000000 < 2 ^ 63"
    using assms by simp_all
  then have "sint (word_of_int (n * 1000000000) :: 64 word) = n * 1000000000"
    by (rule sint_word_of_int_64)
  then show ?thesis by (simp only: e)
qed

subsection \<open>Tailers, channel and windows\<close>


lemma read_loop_chan_unbuffered:
  assumes "capacity ch = 0"
  shows "read_loop line bytes = (sent, l) \<Longrightarrow>
     (length sent \<le> n \<longrightarrow> read_loop_chan n ch line bytes = (sent, ch, Idle l)) \<and>
     (n < length sent \<longrightarrow>
        (\<exists>unread. read_loop_chan n ch line bytes = (take n sent, ch, BlockedOnSend (sent ! n) unread)
           \<and> read_loop [] unread = (drop (Suc n) sent, l)))"
proof (induction bytes arbitrary: n line sent l)
  case Nil
  then show ?case by simp
next
  case (Cons b bs)
  show ?case
  proof (cases "b = newline")
    case False
    with Cons.prems have "read_loop (line @ [b]) bs = (sent, l)" by simp
    from Cons.IH [OF this, of n] False show ?thesis by simp
  next
    case True
    obtain sent' l' where r: "read_loop [] bs = (sent', l')" by (cases "read_loop [] bs")
    from Cons.prems True r have s: "sent = removeANSIEscapeSequences (line @ [b]) # sent'" and l: "l = l'"
      by simp_all
    show ?thesis
    proof (cases n)
      case 0
      then show ?thesis using True r s l assms by simp
    next
      case (Suc m)
      from Cons.IH [OF r, of m] Suc True s l show ?thesis
        by (auto split: prod.splits)
    qed
  qed
qed



lemma AddFilePath_NilWatcher: "watcher env = NilWatcher \<Longrightarrow> AddFilePath env content0 evs = ProcessPanics"
  by (simp add: AddFilePath_def watchFileLines_def)

lemma split_from_not_Nil: "split_from piece s \<noteq> []"
  by (induction s arbitrary: piece) simp_all

lemma split_from_last:
  "s \<noteq> [] \<Longrightarrow> last s = newline \<Longrightarrow> last (split_from piece s) = []"
proof (induction s arbitrary: piece)
  case Nil
  then show ?case by simp
next
  case (Cons c cs)
  show ?case
  proof (cases cs)
    case Nil
    with Cons.prems show ?thesis by simp
  next
    case (Cons d ds)
    with Cons.prems Cons.IH show ?thesis by (simp add: split_from_not_Nil)
  qed
qed

lemma Split_empty_piece: "out = [] \<or> last out = newline \<Longrightarrow> [] \<in> set (Split out)"
proof (cases "out = []")
  case True
  then show ?thesis by (simp add: Split_def)
next
  case False
  assume "out = [] \<or> last out = newline"
  with False have "last out = newline" by simp
  with False have "last (split_from [] out) = []" by (rule split_from_last)
  then show ?thesis unfolding Split_def
    by (metis last_in_set split_from_not_Nil)
qed

lemma Start_empty_name:
  "list_windows tm = Some out \<Longrightarrow> out = [] \<or> last out = newline
   \<Longrightarrow> Start tm [] = Some (AlreadyExists [])"
  by (simp add: Start_def Split_empty_piece)

lemma api_call_dom:
  "n \<in> dom (fst (api_call windowMap c)) \<longleftrightarrow> n \<in> dom windowMap \<or> spawned_by n c"
  by (induction c arbitrary: windowMap) (auto simp: spawn_def send_def split: option.splits send_result.splits if_splits)

lemma DoString_dom:
  "DoString windowMap0 script = (windowMap, None) \<Longrightarrow>
     (n \<in> dom windowMap \<longleftrightarrow> n \<in> dom windowMap0 \<or> (\<exists>c\<in>set script. spawned_by n c))"
proof (induction script arbitrary: windowMap0)
  case Nil
  then show ?case by simp
next
  case (Cons c cs)
  obtain w e where a: "api_call windowMap0 c = (w, e)" by (cases "api_call windowMap0 c")
  with Cons.prems have e: "e = None" and r: "DoString w cs = (windowMap, None)"
    by (auto split: option.splits)
  have "n \<in> dom w \<longleftrightarrow> n \<in> dom windowMap0 \<or> spawned_by n c"
    using api_call_dom [of n windowMap0 c] a by simp
  with Cons.IH [OF r] show ?case by auto
qed

lemma DoString_append:
  "DoString windowMap0 pre = (windowMap, None) \<Longrightarrow> DoString windowMap0 (pre @ cs) = DoString windowMap cs"
proof (induction pre arbitrary: windowMap0)
  case Nil
  then show ?case by simp
next
  case (Cons c pre)
  obtain w e where a: "api_call windowMap0 c = (w, e)" by (cases "api_call windowMap0 c")
  with Cons.prems have e: "e = None" and r: "DoString w pre = (windowMap, None)"
    by (auto split: option.splits)
  from Cons.IH [OF r] a e show ?case by simp
qed

subsection \<open>Lines and fragments\<close>

text \<open>
  C6. A line is sent only when its newline has been read: the number of lines sent is the
  number of newlines among the bytes read, and every line sent ends with the newline. A
  fragment without a newline sends nothing and stays in the builder, in front of the
  bytes of the next read; so the lines sent over a sequence of reads are those of the
  bytes taken together, however the reads cut them.
\<close>

theorem line_sent_only_after_newline:
  "length (fst (read_loop line bytes)) = count_list bytes newline
   \<and> (\<forall>x\<in>set (fst (read_loop line bytes)). x \<noteq> [] \<and> last x = newline)
   \<and> (newline \<notin> set fragment \<longrightarrow>
        read_loop line fragment = ([], line @ fragment)
        \<and> on_write_events line [fragment, later] = read_loop (line @ fragment) later)
   \<and> on_write_events line chunks = read_loop line (concat chunks)"
proof -
  have a: "length (fst (read_loop line bytes)) = count_list bytes newline"
    by (rule length_read_loop)
  have b: "\<forall>x\<in>set (fst (read_loop line bytes)). x \<noteq> [] \<and> last x = newline"
    using read_loop_sent_last [of line bytes] by (cases "read_loop line bytes") simp
  have c: "newline \<notin> set fragment \<longrightarrow>
        read_loop line fragment = ([], line @ fragment)
        \<and> on_write_events line [fragment, later] = read_loop (line @ fragment) later"
    by (simp add: read_loop_no_newline split: prod.splits)
  have d: "on_write_events line chunks = read_loop line (concat chunks)"
    by (rule on_write_events_concat)
  from a b c d show ?thesis by blast
qed

text \<open>An instance: the fragment \<open>cd\<close> joins the builder \<open>ab\<close> and is sent with the next read.\<close>

theorem line_sent_only_after_newline_witness:
  "newline \<notin> set ''cd''
   \<and> read_loop ''ab'' ''cd'' = ([], ''abcd'')
   \<and> on_write_events ''ab'' [''cd'', ''e'' @ [newline] @ ''f''] = ([''abcde'' @ [newline]], ''f'')
   \<and> fst (read_loop ''ab'' (''cd'' @ [newline] @ ''f'')) = [''abcd'' @ [newline]]"
  using line_sent_only_after_newline [of "''ab''" "''cd'' @ [newline] @ ''f''" "''cd''" "''e'' @ [newline] @ ''f''" "[]"]
  by (simp add: newline_def ansi_match_def ESC_def)

subsection \<open>The line delivered for a raw line\<close>

text \<open>
  C2, as the code has it. For a raw line (a body without newline, then the newline) the
  line sent is the cleaned body followed by the newline: the newline is part of the
  content. When the body is made of plain text and CSI sequences, the cleaned body is
  the plain text.
\<close>

theorem delivered_line_keeps_newline:
  assumes "newline \<notin> set body"
  shows "read_loop [] (body @ [newline]) = ([removeANSIEscapeSequences body @ [newline]], [])
    \<and> ((\<forall>p\<in>set pieces. piece_ok p) \<and> body = raw pieces \<longrightarrow>
         read_loop [] (body @ [newline]) = ([visible pieces @ [newline]], []))"
proof -
  have "read_loop [] (body @ [newline]) = ([removeANSIEscapeSequences (body @ [newline])], [])"
    using assms by (simp add: read_loop_append read_loop_no_newline)
  then have g: "read_loop [] (body @ [newline]) = ([removeANSIEscapeSequences body @ [newline]], [])"
    by (simp only: removeANSI_snoc_newline)
  then show ?thesis using removeANSI_raw [of pieces] by auto
qed

text \<open>The red \<open>HELLO\<close> of the specification is delivered with its newline.\<close>

theorem delivered_line_keeps_newline_witness:
  "newline \<notin> set (raw [CSI ''31'' CHR ''m'', Plain ''HELLO'', CSI ''0'' CHR ''m''])
   \<and> list_all piece_ok [CSI ''31'' CHR ''m'', Plain ''HELLO'', CSI ''0'' CHR ''m'']
   \<and> read_loop [] (ESC # ''[31mHELLO'' @ ESC # ''[0m'' @ [newline]) = ([''HELLO'' @ [newline]], [])"
proof -
  have n: "newline \<notin> set (raw [CSI ''31'' CHR ''m'', Plain ''HELLO'', CSI ''0'' CHR ''m''])"
    by (simp add: newline_def ESC_def)
  have ok: "\<forall>p\<in>set [CSI ''31'' CHR ''m'', Plain ''HELLO'', CSI ''0'' CHR ''m'']. piece_ok p"
    by (simp add: is_param_def is_letter_def ESC_def)
  have "read_loop [] (raw [CSI ''31'' CHR ''m'', Plain ''HELLO'', CSI ''0'' CHR ''m''] @ [newline])
      = ([visible [CSI ''31'' CHR ''m'', Plain ''HELLO'', CSI ''0'' CHR ''m''] @ [newline]], [])"
    using delivered_line_keeps_newline [OF n, of "[CSI ''31'' CHR ''m'', Plain ''HELLO'', CSI ''0'' CHR ''m'']"] ok
    by blast
  then have "read_loop [] (ESC # ''[31mHELLO'' @ ESC # ''[0m'' @ [newline]) = ([''HELLO'' @ [newline]], [])"
    by simp
  with n ok show ?thesis by (simp only: list_all_iff) blast
qed

text \<open>C2 as stated fails: the line delivered for the red \<open>HELLO\<close> is not \<open>HELLO\<close> alone.\<close>

theorem delivered_line_without_newline_counterexample:
  "fst (read_loop [] (ESC # ''[31mHELLO'' @ ESC # ''[0m'' @ [newline])) \<noteq> [''HELLO'']"
  by (simp add: newline_def ansi_match_def ESC_def is_param_def is_letter_def)

subsection \<open>Nothing from before the seek\<close>

text \<open>
  C5. The tailer seeks to the end of the file before it reads. Whatever the file held
  then (\<open>content0\<close>), the lines it sends are the lines of the chunks appended
  afterwards and of nothing else; a tailer that did not start sends none.
\<close>

theorem tailing_starts_at_end_of_file:
  "fst (watchFileLines env content0 (appended content0 chunks)) =
     (if watcher env = Watching \<and> file_opened env \<and> \<not> seek_fails env
      then fst (read_loop [] (concat chunks)) else [])"
proof -
  have "filter (\<lambda>e. e = Done) (appended c chunks) = []" for c
    by (induction chunks arbitrary: c) simp_all
  then show ?thesis
    by (simp add: watchFileLines_def event_loop_appended)
qed

text \<open>An instance: the old line and the old half line are not delivered.\<close>

theorem tailing_starts_at_end_of_file_witness:
  "fst (watchFileLines \<lparr>watcher = Watching, file_opened = True, seek_fails = False\<rparr>
         (''old'' @ [newline] @ ''half'')
         [Write (''old'' @ [newline] @ ''half'' @ ''new''),
          Write (''old'' @ [newline] @ ''half'' @ ''new'' @ [newline] @ ''x'')])
   = [''new'' @ [newline]]"
  using tailing_starts_at_end_of_file
    [of "\<lparr>watcher = Watching, file_opened = True, seek_fails = False\<rparr>"
        "''old'' @ [newline] @ ''half''" "[''new'', [newline] @ ''x'']"]
  by (simp add: newline_def ansi_match_def ESC_def)

subsection \<open>The default timeout\<close>

text \<open>
  C1, on a platform whose \<^verbatim>\<open>int\<close> has 64 bits. The default \<^verbatim>\<open>math.MaxInt\<close> seconds
  become, in nanoseconds and after the wrap-around of the multiplication, minus one
  second: the timer has fired when the call starts. A call without timeout whose first
  line is offered after the call started returns the timeout value at once and leaves the
  line unconsumed, in \<^verbatim>\<open>expect\<close> and in \<^verbatim>\<open>expectAny\<close>, whatever the line holds.
\<close>

theorem default_timeout_fires_at_once:
  assumes "0 < t"
  shows "sint (Duration (OptInt None (MaxInt 64)) * Second) = - 1000000000
    \<and> expect 64 expectedText None pick ((t, line) # rest)
        = \<lparr>ret = - 1, returned_at = 0, unconsumed = (t, line) # rest\<rparr>
    \<and> expectAny 64 expectedTexts None pick ((t, line) # rest)
        = \<lparr>ret = - 1, returned_at = 0, unconsumed = (t, line) # rest\<rparr>"
proof -
  have f: "After (Duration (OptInt None (MaxInt 64)) * Second) = 0"
    by (simp add: After_def default_duration_64)
  have s: "select_ready 0 (pick 0) 0 t = TimeoutCh"
    using assms by (simp add: select_ready_def)
  show ?thesis
    by (simp add: default_duration_64 expect_def expectAny_def f s)
qed

text \<open>An instance: the awaited text is offered one millisecond after the call.\<close>

theorem default_timeout_fires_at_once_witness:
  "(0::int) < 1000000
   \<and> expect 64 ''2025'' None always_line [(1000000, ''2025'' @ [newline])]
        = \<lparr>ret = - 1, returned_at = 0, unconsumed = [(1000000, ''2025'' @ [newline])]\<rparr>"
proof -
  have h: "(0::int) < 1000000" by simp
  from default_timeout_fires_at_once [OF h, of "''2025''" always_line "''2025'' @ [newline]" "[]"] h
  show ?thesis by blast
qed

subsection \<open>The first matching line decides\<close>

text \<open>
  C3. When the lines up to a line \<open>l\<close> are offered before the timer fires, none of the
  earlier ones contains any of the texts, and \<open>i\<close> is the lowest index whose text \<open>l\<close>
  contains, then \<^verbatim>\<open>expectAny\<close> returns \<open>i\<close>, having consumed the lines up to \<open>l\<close> and
  no line behind it: a line is tried against every text in list order before the next
  line is received.
\<close>

theorem expectAny_first_matching_line:
  assumes "\<forall>x\<in>set pre. fst x < After (Duration (OptInt arg2 (MaxInt intSize)) * Second)
             \<and> (\<forall>p\<in>set expectedTexts. \<not> Contains (snd x) p)"
    and "0 \<le> t" and "t < After (Duration (OptInt arg2 (MaxInt intSize)) * Second)"
    and "i < length expectedTexts" and "Contains l (expectedTexts ! i)"
    and "\<forall>j<i. \<not> Contains l (expectedTexts ! j)"
  shows "ret (expectAny intSize expectedTexts arg2 pick (pre @ (t, l) # post)) = int i
    \<and> unconsumed (expectAny intSize expectedTexts arg2 pick (pre @ (t, l) # post)) = post"
proof -
  have m: "range_match l expectedTexts 0 = Some i"
    using range_match_Some [OF assms(4) assms(5) assms(6), of 0] by simp
  have n: "0 < After (Duration (OptInt arg2 (MaxInt intSize)) * Second)"
    using assms(2) assms(3) by simp
  show ?thesis unfolding expectAny_def
    using assms(1) n assms(3) m by (rule expectAny_loop_first_match)
qed

text \<open>
  The instance of the specification: a line with \<open>B\<close> comes before the line with \<open>A\<close>,
  and the result is 1.
\<close>

theorem expectAny_first_matching_line_witness:
  "ret (expectAny 64 [''A'', ''B''] (Some 10) always_line
          [(1000000000, ''xx'' @ [newline]), (2000000000, ''xB'' @ [newline]), (3000000000, ''A'' @ [newline])]) = 1
   \<and> unconsumed (expectAny 64 [''A'', ''B''] (Some 10) always_line
          [(1000000000, ''xx'' @ [newline]), (2000000000, ''xB'' @ [newline]), (3000000000, ''A'' @ [newline])])
       = [(3000000000, ''A'' @ [newline])]"
proof -
  have f: "After (Duration (OptInt (Some 10) (MaxInt 64)) * Second) = 10000000000"
    by (simp add: After_def OptInt_def duration_seconds)
  have "ret (expectAny 64 [''A'', ''B''] (Some 10) always_line
          ([(1000000000, ''xx'' @ [newline])] @ (2000000000, ''xB'' @ [newline]) # [(3000000000, ''A'' @ [newline])])) = int 1
   \<and> unconsumed (expectAny 64 [''A'', ''B''] (Some 10) always_line
          ([(1000000000, ''xx'' @ [newline])] @ (2000000000, ''xB'' @ [newline]) # [(3000000000, ''A'' @ [newline])]))
       = [(3000000000, ''A'' @ [newline])]"
    by (rule expectAny_first_matching_line) (simp_all add: f newline_def)
  then show ?thesis by simp
qed

subsection \<open>The result of \<^verbatim>\<open>expect\<close>\<close>

text \<open>
  C7 as stated fails: the value \<^verbatim>\<open>expect\<close> returns on a match is 0, which is the index
  of its text in a list of one, and what \<^verbatim>\<open>expectAny\<close> returns for that list.
\<close>

theorem expect_result_is_index_counterexample:
  "ret (expect 64 ''ok'' (Some 5) always_line [(1000, ''ok'' @ [newline])]) = 0
   \<and> range_match (''ok'' @ [newline]) [''ok''] 0 = Some 0
   \<and> ret (expectAny 64 [''ok''] (Some 5) always_line [(1000, ''ok'' @ [newline])]) = 0"
proof -
  have f: "After (Duration (OptInt (Some 5) (MaxInt 64)) * Second) = 5000000000"
    by (simp add: After_def OptInt_def duration_seconds)
  show ?thesis
    by (simp add: expect_def expectAny_def f select_ready_def)
qed

text \<open>
  C7, as the code has it. \<^verbatim>\<open>expect\<close> behaves as \<^verbatim>\<open>expectAny\<close> on the list of its one
  text, and its result is one of two fixed values: 0 on a match, \<open>-1\<close> on timeout.
\<close>

theorem expect_success_or_timeout:
  "expect intSize expectedText arg2 pick lines = expectAny intSize [expectedText] arg2 pick lines
   \<and> (ret (expect intSize expectedText arg2 pick lines) = 0
        \<or> ret (expect intSize expectedText arg2 pick lines) = - 1)"
  by (simp add: expect_def expectAny_def expect_loop_expectAny_loop [symmetric] expect_loop_ret)

text \<open>An instance with a match in the second line.\<close>

theorem expect_success_or_timeout_witness:
  "expect 64 ''ok'' (Some 5) always_line [(1000, ''no'' @ [newline]), (2000, ''ok'' @ [newline])]
     = expectAny 64 [''ok''] (Some 5) always_line [(1000, ''no'' @ [newline]), (2000, ''ok'' @ [newline])]
   \<and> ret (expect 64 ''ok'' (Some 5) always_line [(1000, ''no'' @ [newline]), (2000, ''ok'' @ [newline])]) = 0"
proof -
  have f: "After (Duration (OptInt (Some 5) (MaxInt 64)) * Second) = 5000000000"
    by (simp add: After_def OptInt_def duration_seconds)
  have "ret (expect 64 ''ok'' (Some 5) always_line [(1000, ''no'' @ [newline]), (2000, ''ok'' @ [newline])]) = 0"
    by (simp add: expect_def f select_ready_def)
  with expect_success_or_timeout [of 64 "''ok''" "Some 5" always_line "[(1000, ''no'' @ [newline]), (2000, ''ok'' @ [newline])]"]
  show ?thesis by simp
qed

subsection \<open>The empty list of texts\<close>

text \<open>
  C8. With an empty list no line matches, and \<^verbatim>\<open>expectAny\<close> returns the timeout value,
  at the time the timer fires.
\<close>

theorem expectAny_empty_list_times_out:
  "range_match line [] index = None
   \<and> ret (expectAny intSize [] arg2 pick lines) = - 1
   \<and> returned_at (expectAny intSize [] arg2 pick lines)
       = After (Duration (OptInt arg2 (MaxInt intSize)) * Second)"
proof -
  have "0 \<le> After (Duration (OptInt arg2 (MaxInt intSize)) * Second)"
    by (simp add: After_def)
  then show ?thesis
    by (simp add: expectAny_def expectAny_loop_empty)
qed

text \<open>An instance: a timeout of three seconds, with a line before and a line after it.\<close>

theorem expectAny_empty_list_times_out_witness:
  "ret (expectAny 64 [] (Some 3) always_line [(1000000000, ''a'' @ [newline]), (5000000000, ''b'' @ [newline])]) = - 1
   \<and> returned_at (expectAny 64 [] (Some 3) always_line [(1000000000, ''a'' @ [newline]), (5000000000, ''b'' @ [newline])])
       = 3000000000"
proof -
  have f: "After (Duration (OptInt (Some 3) (MaxInt 64)) * Second) = 3000000000"
    by (simp add: After_def OptInt_def duration_seconds)
  from expectAny_empty_list_times_out [of "[]" 0 64 "Some 3" always_line
      "[(1000000000, ''a'' @ [newline]), (5000000000, ''b'' @ [newline])]"]
  show ?thesis by (simp add: f)
qed

subsection \<open>A source that cannot be tailed\<close>




subsection \<open>The channel has no buffer\<close>

text \<open>
  C9, as the code has it. On the channel \<^verbatim>\<open>NewLineWatcher\<close> makes, a tailer hands over
  as many lines as the consumer receives. With no more newlines than that it returns to
  its \<^verbatim>\<open>select\<close>; otherwise it blocks in the send of the next line, and the bytes it has
  not read hold exactly the lines behind that one. The channel itself never holds a line.
\<close>

theorem tailer_blocks_without_consumer:
  "(count_list bytes newline \<le> n \<longrightarrow>
      read_loop_chan n (recvLineCh NewLineWatcher) line bytes
        = (fst (read_loop line bytes), recvLineCh NewLineWatcher, Idle (snd (read_loop line bytes))))
   \<and> (n < count_list bytes newline \<longrightarrow>
      (\<exists>unread. read_loop_chan n (recvLineCh NewLineWatcher) line bytes
           = (take n (fst (read_loop line bytes)), recvLineCh NewLineWatcher,
              BlockedOnSend (fst (read_loop line bytes) ! n) unread)
         \<and> read_loop [] unread
           = (drop (Suc n) (fst (read_loop line bytes)), snd (read_loop line bytes))))
   \<and> buffered (fst (snd (read_loop_chan n (recvLineCh NewLineWatcher) line bytes))) = []"
proof -
  obtain sent l where r: "read_loop line bytes = (sent, l)" by (cases "read_loop line bytes")
  have c: "capacity (recvLineCh NewLineWatcher) = 0"
    by (simp add: NewLineWatcher_def make_chan_def)
  have b: "buffered (recvLineCh NewLineWatcher) = []"
    by (simp add: NewLineWatcher_def make_chan_def)
  have n: "length sent = count_list bytes newline"
    using length_read_loop' [OF r] .
  from read_loop_chan_unbuffered [OF c r, of n] n r b show ?thesis
    by (cases "n < count_list bytes newline") auto
qed

text \<open>An instance: the consumer receives one line of two.\<close>

theorem tailer_blocks_without_consumer_witness:
  "1 < count_list (''a'' @ [newline] @ ''b'' @ [newline] @ ''c'') newline
   \<and> read_loop_chan 1 (recvLineCh NewLineWatcher) [] (''a'' @ [newline] @ ''b'' @ [newline] @ ''c'')
     = ([''a'' @ [newline]], recvLineCh NewLineWatcher, BlockedOnSend (''b'' @ [newline]) ''c'')
   \<and> buffered (fst (snd (read_loop_chan 1 (recvLineCh NewLineWatcher) []
         (''a'' @ [newline] @ ''b'' @ [newline] @ ''c'')))) = []"
proof -
  have h: "1 < count_list (''a'' @ [newline] @ ''b'' @ [newline] @ ''c'') newline"
    by (simp add: newline_def)
  have r: "read_loop [] (''a'' @ [newline] @ ''b'' @ [newline] @ ''c'')
      = ([''a'' @ [newline], ''b'' @ [newline]], ''c'')"
    by (simp add: newline_def ansi_match_def ESC_def)
  from tailer_blocks_without_consumer [of "''a'' @ [newline] @ ''b'' @ [newline] @ ''c''" 1 "[]"] h
  obtain unread where
    u: "read_loop_chan 1 (recvLineCh NewLineWatcher) [] (''a'' @ [newline] @ ''b'' @ [newline] @ ''c'')
          = (take 1 (fst (read_loop [] (''a'' @ [newline] @ ''b'' @ [newline] @ ''c''))),
             recvLineCh NewLineWatcher,
             BlockedOnSend (fst (read_loop [] (''a'' @ [newline] @ ''b'' @ [newline] @ ''c'')) ! 1) unread)"
    and b: "buffered (fst (snd (read_loop_chan 1 (recvLineCh NewLineWatcher) []
         (''a'' @ [newline] @ ''b'' @ [newline] @ ''c'')))) = []"
    by blast
  have "read_loop_chan 1 (recvLineCh NewLineWatcher) [] (''a'' @ [newline] @ ''b'' @ [newline] @ ''c'')
     = ([''a'' @ [newline]], recvLineCh NewLineWatcher, BlockedOnSend (''b'' @ [newline]) ''c'')"
    using u by (simp add: NewLineWatcher_def make_chan_def newline_def ansi_match_def ESC_def)
  with h b show ?thesis by blast
qed

text \<open>
  C9 as stated fails: with no consumer receiving, the tailer blocks in the send of its
  first line and reads no further.
\<close>

theorem sink_unbounded_counterexample:
  "read_loop_chan 0 (recvLineCh NewLineWatcher) [] (''a'' @ [newline] @ ''b'' @ [newline])
     = ([], recvLineCh NewLineWatcher, BlockedOnSend (''a'' @ [newline]) (''b'' @ [newline]))"
  by (simp add: NewLineWatcher_def make_chan_def newline_def ansi_match_def ESC_def)

subsection \<open>\<^verbatim>\<open>send\<close> to a window that was not spawned\<close>

text \<open>
  C10, as the code has it. After a script that ran without error, \<^verbatim>\<open>send\<close>
  dereferences nil exactly for a name for which no \<^verbatim>\<open>spawn\<close> succeeded. The panic does
  not end the process: the script stops there with an error, which \<^verbatim>\<open>main\<close> prints
  before it exits with status 0; under \<^verbatim>\<open>pcall\<close> the script goes on.
\<close>

theorem send_to_unknown_window_is_script_error:
  assumes "DoString Map.empty pre = (windowMap, None)"
  shows "(send windowMap windowName cmd = NilPointerDereference
            \<longleftrightarrow> (\<forall>c\<in>set pre. \<not> spawned_by windowName c))
    \<and> ((\<forall>c\<in>set pre. \<not> spawned_by windowName c) \<longrightarrow>
          DoString Map.empty (pre @ Send windowName cmd # rest) = (windowMap, Some RecoveredPanic)
        \<and> main (pre @ Send windowName cmd # rest) = (Some RecoveredPanic, Exited 0)
        \<and> DoString Map.empty (pre @ Pcall (Send windowName cmd) # rest) = DoString windowMap rest)"
proof -
  have d: "windowName \<in> dom windowMap \<longleftrightarrow> (\<exists>c\<in>set pre. spawned_by windowName c)"
    using DoString_dom [OF assms, of windowName] by simp
  have s: "send windowMap windowName cmd = NilPointerDereference
            \<longleftrightarrow> (\<forall>c\<in>set pre. \<not> spawned_by windowName c)"
    using d by (cases "windowMap windowName") (auto simp: send_def dom_def)
  have a1: "DoString Map.empty (pre @ Send windowName cmd # rest) = DoString windowMap (Send windowName cmd # rest)"
    using assms by (rule DoString_append)
  have a2: "DoString Map.empty (pre @ Pcall (Send windowName cmd) # rest)
      = DoString windowMap (Pcall (Send windowName cmd) # rest)"
    using assms by (rule DoString_append)
  have p: "DoString windowMap (Pcall (Send windowName cmd) # rest) = DoString windowMap rest"
    by (simp split: send_result.splits)
  have "DoString Map.empty (pre @ Send windowName cmd # rest) = (windowMap, Some RecoveredPanic)"
    if "\<forall>c\<in>set pre. \<not> spawned_by windowName c"
    using that s a1 by simp
  then show ?thesis using s a2 p by (simp add: main_def)
qed

text \<open>An instance: \<open>serv2\<close> was tried under \<^verbatim>\<open>pcall\<close>, and tmux failed.\<close>

theorem send_to_unknown_window_is_script_error_witness:
  "snd (DoString Map.empty
          [Spawn \<lparr>list_windows = Some (''control'' @ [newline]), new_window_ok = True, pipe_pane_ok = True\<rparr> ''serv1'' ''bash'',
           Pcall (Spawn \<lparr>list_windows = None, new_window_ok = True, pipe_pane_ok = True\<rparr> ''serv2'' ''bash'')]) = None
   \<and> main ([Spawn \<lparr>list_windows = Some (''control'' @ [newline]), new_window_ok = True, pipe_pane_ok = True\<rparr> ''serv1'' ''bash'',
           Pcall (Spawn \<lparr>list_windows = None, new_window_ok = True, pipe_pane_ok = True\<rparr> ''serv2'' ''bash'')]
          @ [Send ''serv2'' ''date''])
       = (Some RecoveredPanic, Exited 0)"
proof -
  let ?pre = "[Spawn \<lparr>list_windows = Some (''control'' @ [newline]), new_window_ok = True, pipe_pane_ok = True\<rparr> ''serv1'' ''bash'',
           Pcall (Spawn \<lparr>list_windows = None, new_window_ok = True, pipe_pane_ok = True\<rparr> ''serv2'' ''bash'')]"
  have n: "snd (DoString Map.empty ?pre) = None"
    by (simp add: spawn_def Start_def Split_def newline_def)
  then have h: "DoString Map.empty ?pre = (fst (DoString Map.empty ?pre), None)"
    by (simp add: prod_eq_iff)
  have u: "\<forall>c\<in>set ?pre. \<not> spawned_by ''serv2'' c"
    by (simp add: Start_def)
  from send_to_unknown_window_is_script_error [OF h, of "''serv2''" "''date''" "[]"] u
  have "main (?pre @ [Send ''serv2'' ''date'']) = (Some RecoveredPanic, Exited 0)"
    by blast
  with n show ?thesis by blast
qed

text \<open>
  C10 as stated fails: a script that sends to a window never spawned ends with a reported
  error and a normal exit, not with a crash.
\<close>

theorem send_crashes_process_counterexample:
  "main [Send ''nope'' ''date''] = (Some RecoveredPanic, Exited 0)"
  by (simp add: main_def send_def)

end
